theory Spec2Isabelle
  imports Main "HOL-Library.Word"
begin

unbundle bit_operations_syntax

section \<open>Characters and strings\<close>

text \<open>
  JavaScript strings are modelled as \<^typ>\<open>string\<close>, one \<^typ>\<open>char\<close> per code unit; the
  code units that the regular expressions of the source single out are named here.
\<close>

definition CR :: char where "CR = CHR 0x0D"
definition LF :: char where "LF = CHR 0x0A"
definition TAB :: char where "TAB = CHR 0x09"
definition SP :: char where "SP = CHR 0x20"

section \<open>Cleartext normalisation (the \<open>CleartextMessage\<close> constructor)\<close>

text \<open>
  \<^verbatim>\<open>this.text = text.replace(/\r/g, '').replace(/[\t ]+\n/g, "\n").replace(/\n/g,"\r\n");\<close>
  Each global replace is one left-to-right scan.
\<close>

definition is_hws :: "char \<Rightarrow> bool" where
  "is_hws c = (c = TAB \<or> c = SP)"

text \<open>\<^verbatim>\<open>replace(/\r/g, '')\<close>\<close>

definition strip_cr :: "string \<Rightarrow> string" where
  "strip_cr t = filter (\<lambda>c. c \<noteq> CR) t"

text \<open>
  \<^verbatim>\<open>replace(/[\t ]+\n/g, "\n")\<close>: at each position the greedy run of tabs and spaces must
  be followed by a line feed for the pattern to match there (a shorter run would have to be
  followed by a line feed inside the run, which holds none); a match is replaced by one line
  feed and the scan resumes after it, otherwise the character is copied and the scan moves
  one position on.
\<close>

function strip_ws_lf :: "string \<Rightarrow> string" where
  "strip_ws_lf [] = []"
| "strip_ws_lf (c # cs) =
     (if is_hws c then
        (case dropWhile is_hws cs of
           [] \<Rightarrow> c # strip_ws_lf cs
         | d # ds \<Rightarrow> if d = LF then LF # strip_ws_lf ds else c # strip_ws_lf cs)
      else c # strip_ws_lf cs)"
  by pat_completeness auto
termination
proof (relation "measure length")
  show "wf (measure length)" by simp
next
  fix c :: char and cs d ds
  assume "dropWhile is_hws cs = d # ds"
  then have "length (d # ds) \<le> length cs" by (metis length_dropWhile_le)
  then show "(ds, c # cs) \<in> measure length" by simp
qed simp_all

text \<open>\<^verbatim>\<open>replace(/\n/g, "\r\n")\<close>\<close>

definition lf_to_crlf :: "string \<Rightarrow> string" where
  "lf_to_crlf t = concat (map (\<lambda>c. if c = LF then [CR, LF] else [c]) t)"

definition normalize :: "string \<Rightarrow> string" where
  "normalize t = lf_to_crlf (strip_ws_lf (strip_cr t))"

section \<open>Cleartext signed messages (\<open>cleartext.js\<close>)\<close>

text \<open>
  The errors that the source throws, one constructor for each message; \<open>Collaborator\<close>
  is an error raised inside a collaborator and \<open>InvalidEnumValue\<close> the one of
  \<^verbatim>\<open>enums.read\<close>.
\<close>

datatype error =
    InvalidSignatureInput
  | NeedPrivateKey
  | NoSigningKeyPacket string
  | KeyNotDecrypted
  | NoCleartextSignedMessage
  | UnknownHashAlgorithm string
  | OnlyHashHeaderAllowed
  | OnlyMD5Allowed
  | HashAlgorithmMismatch
  | InvalidEnumValue
  | Collaborator string

text \<open>
  The fields of a packet that \<open>cleartext.js\<close> reads or writes. Every packet of a list has
  a tag; the other fields are read only when the tag is the one of a signature packet.
\<close>

record packet =
  tag :: nat
  signatureType :: nat
  hashAlgorithm :: nat
  publicKeyAlgorithm :: nat
  issuerKeyId :: string
  signatureData :: string

record Signature =
  packets :: "packet list"

record CleartextMessage =
  "text" :: string
  signature :: Signature

text \<open>
  The modules \<open>enums\<close> and \<open>config\<close> are separate modules: their tables and
  constants are parameters. \<open>hash_write\<close> is \<^verbatim>\<open>enums.write(enums.hash, name)\<close> and
  \<open>hash_read\<close> is \<^verbatim>\<open>enums.read(enums.hash, id)\<close>, with \<open>None\<close> where they throw.
\<close>

record enums =
  hash_write :: "string \<Rightarrow> nat option"
  hash_read :: "nat \<Rightarrow> string option"
  hash_md5 :: nat
  packet_signature :: nat
  signature_text :: nat
  armor_signed :: nat

record config =
  prefer_hash_algorithm :: nat
  verify_expired_keys :: bool

text \<open>
  The constructor: its second argument is absent, a \<open>Signature\<close> or something else, which
  is refused. The text is stored normalised.
\<close>

datatype signature_arg = NoArgument | SignatureArg Signature | OtherArg

definition newCleartextMessage :: "string \<Rightarrow> signature_arg \<Rightarrow> error + CleartextMessage" where
  "newCleartextMessage txt arg =
     (case arg of
        OtherArg \<Rightarrow> Inl InvalidSignatureInput
      | NoArgument \<Rightarrow> Inr \<lparr>text = normalize txt, signature = \<lparr>packets = []\<rparr>\<rparr>
      | SignatureArg sg \<Rightarrow> Inr \<lparr>text = normalize txt, signature = sg\<rparr>)"

subsection \<open>Strings\<close>

text \<open>
  \<^verbatim>\<open>toLowerCase\<close> and \<^verbatim>\<open>toUpperCase\<close> on the code units below 256: the letters of ASCII
  and of Latin-1. The capitals of the micro sign and of y with diaeresis lie outside this
  range and the two letters are left as they are; no name of a hash algorithm holds them.
\<close>

definition toLowerCase :: "string \<Rightarrow> string" where
  "toLowerCase str =
     map (\<lambda>c. let n = (of_char c :: nat)
              in if (65 \<le> n \<and> n \<le> 90) \<or> (192 \<le> n \<and> n \<le> 222 \<and> n \<noteq> 215)
                 then char_of (n + 32) else c) str"

definition toUpperCase :: "string \<Rightarrow> string" where
  "toUpperCase str =
     concat (map (\<lambda>c. let n = (of_char c :: nat)
              in if (97 \<le> n \<and> n \<le> 122) \<or> (224 \<le> n \<and> n \<le> 254 \<and> n \<noteq> 247)
                 then [char_of (n - 32)]
                 else if n = 223 then ''SS'' else [c]) str)"

text \<open>The line terminators that \<open>.\<close> does not match, and the white space of \<open>\s\<close>.\<close>

definition is_line_terminator :: "char \<Rightarrow> bool" where
  "is_line_terminator c = (c = LF \<or> c = CR)"

definition is_space :: "char \<Rightarrow> bool" where
  "is_space c = ((of_char c :: nat) \<in> {9, 10, 11, 12, 13, 32, 160})"

text \<open>\<^verbatim>\<open>split(',')\<close>: the empty string splits into one empty string.\<close>

definition split_comma :: "string \<Rightarrow> string list" where
  "split_comma str =
     foldr (\<lambda>c acc. if c = CHR '','' then [] # acc else (c # hd acc) # tl acc) str [[]]"

text \<open>
  \<^verbatim>\<open>header.match(/Hash: (.+)/)\<close>: the pattern is not anchored, so the scan tries every
  position of the header; at a position the literal must be followed by at least one
  character that is no line terminator, and the group takes all of them.
\<close>

fun match_hash :: "string \<Rightarrow> string option" where
  "match_hash [] = None"
| "match_hash (c # cs) =
     (if take 6 (c # cs) = ''Hash: ''
         \<and> takeWhile (\<lambda>x. \<not> is_line_terminator x) (drop 6 (c # cs)) \<noteq> []
      then Some (takeWhile (\<lambda>x. \<not> is_line_terminator x) (drop 6 (c # cs)))
      else match_hash cs)"

subsection \<open>verifyHeaders and readArmored\<close>

text \<open>The inner function \<open>checkHashAlgos\<close>: the first signature packet off the list decides.\<close>

fun checkHashAlgos :: "enums \<Rightarrow> packet list \<Rightarrow> nat list \<Rightarrow> bool" where
  "checkHashAlgos E [] hashAlgos = True"
| "checkHashAlgos E (p # ps) hashAlgos =
     (if tag p = packet_signature E \<and> \<not> list_ex (\<lambda>algo. hashAlgorithm p = algo) hashAlgos
      then False else checkHashAlgos E ps hashAlgos)"

text \<open>The \<open>map\<close> over the names of one header, stopping at the first unknown name.\<close>

fun write_hashes :: "enums \<Rightarrow> string list \<Rightarrow> error + nat list" where
  "write_hashes E [] = Inr []"
| "write_hashes E (h # hs) =
     (case hash_write E (toLowerCase h) of
        None \<Rightarrow> Inl (UnknownHashAlgorithm (toLowerCase h))
      | Some algo \<Rightarrow>
          (case write_hashes E hs of Inl e \<Rightarrow> Inl e | Inr algos \<Rightarrow> Inr (algo # algos)))"

text \<open>The \<open>forEach\<close> over the headers, with the list \<open>hashAlgos\<close> it builds.\<close>

fun collect_headers :: "enums \<Rightarrow> string list \<Rightarrow> nat list \<Rightarrow> error + nat list" where
  "collect_headers E [] hashAlgos = Inr hashAlgos"
| "collect_headers E (header # rest) hashAlgos =
     (case match_hash header of
        None \<Rightarrow> Inl OnlyHashHeaderAllowed
      | Some v \<Rightarrow>
          (case write_hashes E (split_comma (filter (\<lambda>c. \<not> is_space c) v)) of
             Inl e \<Rightarrow> Inl e
           | Inr oneHeader \<Rightarrow> collect_headers E rest (hashAlgos @ oneHeader)))"

definition verifyHeaders :: "enums \<Rightarrow> string list \<Rightarrow> packet list \<Rightarrow> error + unit" where
  "verifyHeaders E headers packetlist =
     (case collect_headers E headers [] of
        Inl e \<Rightarrow> Inl e
      | Inr hashAlgos \<Rightarrow>
          if length hashAlgos = 0 \<and> \<not> checkHashAlgos E packetlist [hash_md5 E]
          then Inl OnlyMD5Allowed
          else if \<not> checkHashAlgos E packetlist hashAlgos
          then Inl HashAlgorithmMismatch
          else Inr ())"

text \<open>
  What \<^verbatim>\<open>armor.decode\<close> returns. The armor module and the packet list are collaborators:
  \<open>armor_decode\<close> and \<open>packetlist_read\<close> are parameters.
\<close>

record 'd armored =
  atype :: nat
  headers :: "string list"
  atext :: string
  adata :: 'd

definition readArmored ::
  "enums \<Rightarrow> (string \<Rightarrow> error + 'd armored) \<Rightarrow> ('d \<Rightarrow> error + packet list) \<Rightarrow> string
   \<Rightarrow> error + CleartextMessage" where
  "readArmored E armor_decode packetlist_read armoredText =
     (case armor_decode armoredText of
        Inl e \<Rightarrow> Inl e
      | Inr input \<Rightarrow>
          if atype input \<noteq> armor_signed E then Inl NoCleartextSignedMessage
          else (case packetlist_read (adata input) of
                  Inl e \<Rightarrow> Inl e
                | Inr packetlist \<Rightarrow>
                    (case verifyHeaders E (headers input) packetlist of
                       Inl e \<Rightarrow> Inl e
                     | Inr u \<Rightarrow>
                         newCleartextMessage (atext input) (SignatureArg \<lparr>packets = packetlist\<rparr>))))"

subsection \<open>armor\<close>

text \<open>
  \<open>armor\<close> hands the block type and the body to \<^verbatim>\<open>armor.encode\<close>, a parameter, as is
  \<^verbatim>\<open>packets.write\<close>.
\<close>

record 'd armor_body =
  body_hash :: string
  body_text :: string
  body_data :: 'd

definition armor ::
  "config \<Rightarrow> enums \<Rightarrow> (packet list \<Rightarrow> 'd) \<Rightarrow> (nat \<Rightarrow> 'd armor_body \<Rightarrow> 'out) \<Rightarrow> CleartextMessage
   \<Rightarrow> error + 'out" where
  "armor C E packetlist_write armor_encode this =
     (case hash_read E (prefer_hash_algorithm C) of
        None \<Rightarrow> Inl InvalidEnumValue
      | Some name \<Rightarrow>
          Inr (armor_encode (armor_signed E)
                \<lparr>body_hash = toUpperCase name,
                 body_text = text this,
                 body_data = packetlist_write (packets (signature this))\<rparr>))"

text \<open>
  Whether a \<open>Hash\<close> header value names the hash algorithm of every signature packet of a
  list: the upper-case name of each must be one of the comma-separated entries.
\<close>

definition header_names_hashes :: "enums \<Rightarrow> string \<Rightarrow> packet list \<Rightarrow> bool" where
  "header_names_hashes E hdr ps =
     list_all (\<lambda>p. if tag p = packet_signature E
                    then (case hash_read E (hashAlgorithm p) of
                            None \<Rightarrow> False
                          | Some name \<Rightarrow> toUpperCase name \<in> set (split_comma hdr))
                    else True) ps"

subsection \<open>signDetached, sign, verifyDetached and verify\<close>

text \<open>
  The methods of keys, key packets and signature packets that the source calls, all of
  them of separate modules. A method that may throw returns a sum. The literal data
  packet that \<^verbatim>\<open>setText\<close> fills is represented by its text.
\<close>

record ('key, 'kp) collaborators =
  isPublic :: "'key \<Rightarrow> bool"
  verifyPrimaryUser :: "'key \<Rightarrow> error + unit"
  getSigningKeyPacket :: "'key \<Rightarrow> string option \<Rightarrow> bool option \<Rightarrow> 'kp option"
  primaryKeyIdHex :: "'key \<Rightarrow> string"
  algorithm :: "'kp \<Rightarrow> nat"
  isDecrypted :: "'kp \<Rightarrow> bool"
  new_packet_Signature :: packet
  packet_sign :: "packet \<Rightarrow> 'kp \<Rightarrow> string \<Rightarrow> error + packet"
  packet_verify :: "packet \<Rightarrow> 'kp \<Rightarrow> string \<Rightarrow> error + bool"

text \<open>The body of the callback that \<open>signDetached\<close> maps over the private keys.\<close>

definition sign_with_key ::
  "('key, 'kp) collaborators \<Rightarrow> config \<Rightarrow> enums \<Rightarrow> string \<Rightarrow> 'key \<Rightarrow> error + packet" where
  "sign_with_key K C E literal privateKey =
     (if isPublic K privateKey then Inl NeedPrivateKey
      else case verifyPrimaryUser K privateKey of
        Inl e \<Rightarrow> Inl e
      | Inr u \<Rightarrow>
          (case getSigningKeyPacket K privateKey None None of
             None \<Rightarrow> Inl (NoSigningKeyPacket (primaryKeyIdHex K privateKey))
           | Some signingKeyPacket \<Rightarrow>
               (let signaturePacket = (new_packet_Signature K)
                      \<lparr>signatureType := signature_text E,
                       hashAlgorithm := prefer_hash_algorithm C,
                       publicKeyAlgorithm := algorithm K signingKeyPacket\<rparr>
                in if \<not> isDecrypted K signingKeyPacket then Inl KeyNotDecrypted
                   else packet_sign K signaturePacket signingKeyPacket literal)))"

text \<open>
  \<^verbatim>\<open>Promise.all(xs.map(f))\<close>: the results in the order of the array, whatever the order of
  completion, or the rejection of a callback. The callbacks are run in the order of the
  array here.
\<close>

fun all_settled :: "('a \<Rightarrow> error + 'b) \<Rightarrow> 'a list \<Rightarrow> error + 'b list" where
  "all_settled f [] = Inr []"
| "all_settled f (x # xs) =
     (case f x of
        Inl e \<Rightarrow> Inl e
      | Inr y \<Rightarrow> (case all_settled f xs of Inl e \<Rightarrow> Inl e | Inr ys \<Rightarrow> Inr (y # ys)))"

definition signDetached ::
  "('key, 'kp) collaborators \<Rightarrow> config \<Rightarrow> enums \<Rightarrow> CleartextMessage \<Rightarrow> 'key list
   \<Rightarrow> error + Signature" where
  "signDetached K C E this privateKeys =
     (case all_settled (sign_with_key K C E (text this)) privateKeys of
        Inl e \<Rightarrow> Inl e
      | Inr signatureList \<Rightarrow> Inr \<lparr>packets = [] @ signatureList\<rparr>)"

definition sign ::
  "('key, 'kp) collaborators \<Rightarrow> config \<Rightarrow> enums \<Rightarrow> CleartextMessage \<Rightarrow> 'key list
   \<Rightarrow> error + CleartextMessage" where
  "sign K C E this privateKeys =
     (case signDetached K C E this privateKeys of
        Inl e \<Rightarrow> Inl e
      | Inr sg \<Rightarrow> newCleartextMessage (text this) (SignatureArg sg))"

record VerifiedSignature =
  keyid :: string
  valid :: "bool option"
  vsignature :: Signature

text \<open>
  The inner \<open>Promise.all\<close> of \<open>verifyDetached\<close>: every key is asked, and a key that holds
  a matching packet overwrites \<open>keyPacket\<close>.
\<close>

fun find_keyPacket ::
  "('key, 'kp) collaborators \<Rightarrow> config \<Rightarrow> packet \<Rightarrow> 'key list \<Rightarrow> 'kp option
   \<Rightarrow> error + 'kp option" where
  "find_keyPacket K C sg [] keyPacket = Inr keyPacket"
| "find_keyPacket K C sg (key # keys) keyPacket =
     (case verifyPrimaryUser K key of
        Inl e \<Rightarrow> Inl e
      | Inr u \<Rightarrow>
          (case getSigningKeyPacket K key (Some (issuerKeyId sg)) (Some (verify_expired_keys C)) of
             None \<Rightarrow> find_keyPacket K C sg keys keyPacket
           | Some result \<Rightarrow> find_keyPacket K C sg keys (Some result)))"

text \<open>The body of the callback that \<open>verifyDetached\<close> maps over the signature packets.\<close>

definition verify_signature ::
  "('key, 'kp) collaborators \<Rightarrow> config \<Rightarrow> string \<Rightarrow> 'key list \<Rightarrow> packet
   \<Rightarrow> error + VerifiedSignature" where
  "verify_signature K C literal keys sg =
     (case find_keyPacket K C sg keys None of
        Inl e \<Rightarrow> Inl e
      | Inr None \<Rightarrow>
          Inr \<lparr>keyid = issuerKeyId sg, valid = None, vsignature = \<lparr>packets = [sg]\<rparr>\<rparr>
      | Inr (Some keyPacket) \<Rightarrow>
          (case packet_verify K sg keyPacket literal of
             Inl e \<Rightarrow> Inl e
           | Inr b \<Rightarrow>
               Inr \<lparr>keyid = issuerKeyId sg, valid = Some b, vsignature = \<lparr>packets = [sg]\<rparr>\<rparr>))"

definition verifyDetached ::
  "('key, 'kp) collaborators \<Rightarrow> config \<Rightarrow> CleartextMessage \<Rightarrow> Signature \<Rightarrow> 'key list
   \<Rightarrow> error + VerifiedSignature list" where
  "verifyDetached K C this sg keys =
     all_settled (verify_signature K C (text this) keys) (packets sg)"

definition verify ::
  "('key, 'kp) collaborators \<Rightarrow> config \<Rightarrow> CleartextMessage \<Rightarrow> 'key list
   \<Rightarrow> error + VerifiedSignature list" where
  "verify K C this keys = verifyDetached K C this (signature this) keys"

subsection \<open>Instances for the examples\<close>

text \<open>The hash algorithm identifiers of RFC 4880, section 9.4, for the parameter \<open>enums\<close>.\<close>

definition openpgp_hash :: "(string \<times> nat) list" where
  "openpgp_hash = [(''md5'', 1), (''sha1'', 2), (''ripemd'', 3), (''sha256'', 8),
     (''sha384'', 9), (''sha512'', 10), (''sha224'', 11)]"

definition openpgp_enums :: enums where
  "openpgp_enums = \<lparr>hash_write = map_of openpgp_hash,
     hash_read = map_of (map (\<lambda>(n, i). (i, n)) openpgp_hash),
     hash_md5 = 1, packet_signature = 2, signature_text = 1, armor_signed = 2\<rparr>"

text \<open>A signature packet with the given hash algorithm and issuer.\<close>

definition sig_packet :: "nat \<Rightarrow> string \<Rightarrow> packet" where
  "sig_packet h kid = \<lparr>tag = 2, signatureType = 1, hashAlgorithm = h, publicKeyAlgorithm = 1,
     issuerKeyId = kid, signatureData = ''s''\<rparr>"


text \<open>
  Keys named by their key id: a key is private when its name starts with \<open>s\<close>, it holds
  one signing key packet, itself, and a signature verifies when its data is the signed text.
\<close>

definition named_keys :: "(string, string) collaborators" where
  "named_keys = \<lparr>isPublic = (\<lambda>key. take 1 key \<noteq> ''s''),
     verifyPrimaryUser = (\<lambda>key. Inr ()),
     getSigningKeyPacket = (\<lambda>key kid allow.
        case kid of None \<Rightarrow> Some key | Some i \<Rightarrow> if i = key then Some key else None),
     primaryKeyIdHex = (\<lambda>key. key),
     algorithm = (\<lambda>kp. 1),
     isDecrypted = (\<lambda>kp. True),
     new_packet_Signature = \<lparr>tag = 2, signatureType = 0, hashAlgorithm = 0,
        publicKeyAlgorithm = 0, issuerKeyId = [], signatureData = []\<rparr>,
     packet_sign = (\<lambda>p kp lit. Inr (p\<lparr>issuerKeyId := kp, signatureData := lit\<rparr>)),
     packet_verify = (\<lambda>p kp lit. Inr (signatureData p = lit))\<rparr>"

definition sha256_config :: config where
  "sha256_config = \<lparr>prefer_hash_algorithm = 8, verify_expired_keys = False\<rparr>"

definition two_signatures :: Signature where
  "two_signatures = \<lparr>packets = [sig_packet 8 ''s1'', sig_packet 8 ''zz'']\<rparr>"

section \<open>Radix-64 (\<open>s2r\<close> and \<open>r2s\<close>)\<close>

definition b64s :: string where
  "b64s = ''ABCDEFGHIJKLMNOPQRSTUVWXYZabcdefghijklmnopqrstuvwxyz0123456789+/''"

definition b64u :: string where
  "b64u = ''ABCDEFGHIJKLMNOPQRSTUVWXYZabcdefghijklmnopqrstuvwxyz0123456789-_''"

text \<open>\<^verbatim>\<open>String.prototype.charAt\<close>: the empty string out of range.\<close>

definition charAt :: "string \<Rightarrow> nat \<Rightarrow> string" where
  "charAt str i = (if i < length str then [str ! i] else [])"

text \<open>\<^verbatim>\<open>String.prototype.indexOf\<close> of a one-character string: \<open>None\<close> stands for \<open>-1\<close>.\<close>

fun indexOf :: "string \<Rightarrow> char \<Rightarrow> nat option" where
  "indexOf [] ch = None"
| "indexOf (x # xs) ch = (if x = ch then Some 0 else map_option Suc (indexOf xs ch))"

text \<open>\<^verbatim>\<open>if ((l % 60) === 0 && !u) { r.push("\n"); }\<close>\<close>

definition brk :: "bool \<Rightarrow> nat \<Rightarrow> string \<Rightarrow> string" where
  "brk u l r = (if l mod 60 = 0 \<and> \<not> u then r @ [LF] else r)"

text \<open>
  The state of the encoding loop is \<open>(r, l, s, a)\<close>: the joined output so far, the count of
  emitted characters, the position in the 3-byte group and the carried bits. The numbers
  stay below \<open>2\<^sup>1\<^sup>2\<close>, so JavaScript's 32-bit operators are the operators of \<^typ>\<open>nat\<close>.
  The source leaves \<open>a\<close> undefined until the first byte sets it; it is read only after that.
\<close>

type_synonym s2r_state = "string \<times> nat \<times> nat \<times> nat"

fun s2r_step :: "string \<Rightarrow> bool \<Rightarrow> nat \<Rightarrow> s2r_state \<Rightarrow> s2r_state" where
  "s2r_step b64 u c (r, l, s, a) =
     (let (r, l, a) =
        (if s = 0 then (r @ charAt b64 (drop_bit 2 c AND 63), l, push_bit 4 (c AND 3))
         else if s = 1 then (r @ charAt b64 (a OR (drop_bit 4 c AND 15)), l, push_bit 2 (c AND 15))
         else if s = 2 then
           (let r = r @ charAt b64 (a OR (drop_bit 6 c AND 3));
                l = l + 1;
                r = brk u l r
            in (r @ charAt b64 (c AND 63), l, a))
         else (r, l, a));
          l = l + 1;
          r = brk u l r;
          s = s + 1;
          s = (if s = 3 then 0 else s)
      in (r, l, s, a))"

fun s2r_loop :: "string \<Rightarrow> bool \<Rightarrow> 8 word list \<Rightarrow> s2r_state \<Rightarrow> s2r_state" where
  "s2r_loop b64 u [] st = st"
| "s2r_loop b64 u (c # t) st = s2r_loop b64 u t (s2r_step b64 u (unat c) st)"

text \<open>The statements after the loop: the last partial character and the padding.\<close>

fun s2r_finish :: "string \<Rightarrow> bool \<Rightarrow> s2r_state \<Rightarrow> string" where
  "s2r_finish b64 u (r, l, s, a) =
     (let (r, l) =
        (if s > 0 then
           (let r = r @ charAt b64 a;
                l = l + 1;
                r = brk u l r
            in if \<not> u then (r @ ''='', l + 1) else (r, l))
         else (r, l));
          r = (if s = 1 \<and> \<not> u then brk u l r @ ''='' else r)
      in r)"

definition s2r :: "8 word list \<Rightarrow> bool \<Rightarrow> string" where
  "s2r t u =
     (let b64 = (if u then b64u else b64s)
      in s2r_finish b64 u (s2r_loop b64 u t ([], 0, 0, 0)))"

text \<open>
  The state of the decoding loop is \<open>(r, s, a)\<close>. \<^verbatim>\<open>new Uint8Array(r)\<close> reduces every number
  modulo 256, which is \<^const>\<open>of_nat\<close> into \<^typ>\<open>8 word\<close>.
\<close>

type_synonym r2s_state = "nat list \<times> nat \<times> nat"

fun r2s_step :: "string \<Rightarrow> char \<Rightarrow> r2s_state \<Rightarrow> r2s_state" where
  "r2s_step b64 ch (r, s, a) =
     (case indexOf b64 ch of
        None \<Rightarrow> (r, s, a)
      | Some c \<Rightarrow>
          (let r = (if s \<noteq> 0 then r @ [a OR (drop_bit (6 - s) c AND 255)] else r);
               s = (s + 2) AND 7;
               a = push_bit s c AND 255
           in (r, s, a)))"

fun r2s_loop :: "string \<Rightarrow> string \<Rightarrow> r2s_state \<Rightarrow> r2s_state" where
  "r2s_loop b64 [] st = st"
| "r2s_loop b64 (ch # t) st = r2s_loop b64 t (r2s_step b64 ch st)"

definition r2s :: "string \<Rightarrow> bool \<Rightarrow> 8 word list" where
  "r2s t u =
     (let b64 = (if u then b64u else b64s)
      in map of_nat (fst (r2s_loop b64 t ([], 0, 0))))"

subsection \<open>The layout of the encoder's output\<close>

text \<open>The four 6-bit indices of a 3-byte group, most significant bits first.\<close>

definition sx0 :: "8 word \<Rightarrow> nat" where
  "sx0 c0 = drop_bit 2 (unat c0) AND 63"

definition sx1 :: "8 word \<Rightarrow> 8 word \<Rightarrow> nat" where
  "sx1 c0 c1 = push_bit 4 (unat c0 AND 3) OR (drop_bit 4 (unat c1) AND 15)"

definition sx2 :: "8 word \<Rightarrow> 8 word \<Rightarrow> nat" where
  "sx2 c1 c2 = push_bit 2 (unat c1 AND 15) OR (drop_bit 6 (unat c2) AND 3)"

definition sx3 :: "8 word \<Rightarrow> nat" where
  "sx3 c2 = unat c2 AND 63"

text \<open>
  The characters of the encoding with neither line breaks nor padding: four for each
  3-byte group, two for a last single byte, three for a last pair.
\<close>

fun enc :: "string \<Rightarrow> 8 word list \<Rightarrow> string" where
  "enc b64 (c0 # c1 # c2 # t) =
     [b64 ! sx0 c0, b64 ! sx1 c0 c1, b64 ! sx2 c1 c2, b64 ! sx3 c2] @ enc b64 t"
| "enc b64 [c0, c1] = [b64 ! sx0 c0, b64 ! sx1 c0 c1, b64 ! sx2 c1 0]"
| "enc b64 [c0] = [b64 ! sx0 c0, b64 ! sx1 c0 0]"
| "enc b64 [] = []"

text \<open>The last group with its padding, as the standard variant emits it.\<close>

fun final_group :: "string \<Rightarrow> 8 word list \<Rightarrow> string" where
  "final_group b64 [c0] = [b64 ! sx0 c0, b64 ! sx1 c0 0] @ ''==''"
| "final_group b64 [c0, c1] = [b64 ! sx0 c0, b64 ! sx1 c0 c1, b64 ! sx2 c1 0] @ ''=''"
| "final_group b64 t = []"

text \<open>
  A line break after every 60 characters, where \<open>l\<close> characters have been emitted before
  the text.
\<close>

fun wrap :: "nat \<Rightarrow> string \<Rightarrow> string" where
  "wrap l [] = []"
| "wrap l (x # xs) = x # (if Suc l mod 60 = 0 then LF # wrap (Suc l) xs else wrap (Suc l) xs)"

text \<open>The padding that fills the last group to four characters.\<close>

definition pad :: "8 word list \<Rightarrow> string" where
  "pad t = replicate ((3 - length t mod 3) mod 3) (CHR ''='')"

text \<open>
  What the encoder emits from a group boundary at which \<open>l\<close> characters have been
  counted: the groups, the line breaks of the standard variant and the padded last group.
\<close>

fun layout :: "string \<Rightarrow> bool \<Rightarrow> nat \<Rightarrow> 8 word list \<Rightarrow> string" where
  "layout b64 u l (c0 # c1 # c2 # t) =
     [b64 ! sx0 c0, b64 ! sx1 c0 c1, b64 ! sx2 c1 c2, b64 ! sx3 c2]
     @ (if (l + 4) mod 60 = 0 \<and> \<not> u then [LF] else []) @ layout b64 u (l + 4) t"
| "layout b64 u l [c0, c1] =
     [b64 ! sx0 c0, b64 ! sx1 c0 c1, b64 ! sx2 c1 0] @ (if u then [] else ''='')"
| "layout b64 u l [c0] = [b64 ! sx0 c0, b64 ! sx1 c0 0] @ (if u then [] else ''=='')"
| "layout b64 u l [] = []"

section \<open>Properties of the normalisation\<close>

lemma strip_ws_lf_other: "\<not> is_hws c \<Longrightarrow> strip_ws_lf (c # cs) = c # strip_ws_lf cs"
  by simp

lemma strip_ws_lf_hit:
  "is_hws c \<Longrightarrow> dropWhile is_hws cs = LF # ds \<Longrightarrow> strip_ws_lf (c # cs) = LF # strip_ws_lf ds"
  by simp

lemma strip_ws_lf_end:
  "is_hws c \<Longrightarrow> dropWhile is_hws cs = [] \<Longrightarrow> strip_ws_lf (c # cs) = c # strip_ws_lf cs"
  by (simp del: dropWhile_eq_Nil_conv)

lemma strip_ws_lf_miss:
  "is_hws c \<Longrightarrow> dropWhile is_hws cs = d # ds \<Longrightarrow> d \<noteq> LF \<Longrightarrow>
   strip_ws_lf (c # cs) = c # strip_ws_lf cs"
  by simp

declare strip_ws_lf.simps(2) [simp del]

lemma strip_ws_lf_all_hws: "\<forall>x\<in>set ws. is_hws x \<Longrightarrow> strip_ws_lf ws = ws"
proof (induction ws)
  case Nil show ?case by simp
next
  case (Cons c ws)
  then have "dropWhile is_hws ws = []" by simp
  with Cons show ?case by (simp add: strip_ws_lf_end del: dropWhile_eq_Nil_conv)
qed

lemma strip_ws_lf_run:
  "\<forall>x\<in>set ws. is_hws x \<Longrightarrow> \<not> is_hws d \<Longrightarrow> d \<noteq> LF \<Longrightarrow>
   strip_ws_lf (ws @ d # ds) = ws @ d # strip_ws_lf ds"
proof (induction ws)
  case Nil then show ?case by (simp add: strip_ws_lf_other)
next
  case (Cons c ws)
  then have dw: "dropWhile is_hws (ws @ d # ds) = d # ds"
    by (simp add: dropWhile_append2)
  from Cons have "is_hws c" by simp
  then have "strip_ws_lf (c # (ws @ d # ds)) = c # strip_ws_lf (ws @ d # ds)"
    using dw Cons.prems(3) by (rule strip_ws_lf_miss)
  with Cons show ?case by simp
qed

text \<open>A second scan finds nothing to replace.\<close>

lemma strip_ws_lf_idem: "strip_ws_lf (strip_ws_lf xs) = strip_ws_lf xs"
proof (induction xs rule: strip_ws_lf.induct)
  case 1 show ?case by simp
next
  case (2 c cs)
  show ?case
  proof (cases "is_hws c")
    case False
    with 2 show ?thesis by (simp add: strip_ws_lf_other)
  next
    case hws: True
    show ?thesis
    proof (cases "dropWhile is_hws cs")
      case Nil
      then have all: "\<forall>x\<in>set (c # cs). is_hws x" using hws by simp
      then show ?thesis by (simp only: strip_ws_lf_all_hws)
    next
      case (Cons d ds)
      show ?thesis
      proof (cases "d = LF")
        case True
        then have hit: "strip_ws_lf (c # cs) = LF # strip_ws_lf ds"
          using hws Cons by (simp add: strip_ws_lf_hit)
        have "\<not> is_hws LF" by (simp add: is_hws_def LF_def TAB_def SP_def)
        moreover have "strip_ws_lf (strip_ws_lf ds) = strip_ws_lf ds"
          using 2(2) [OF hws Cons True] .
        ultimately show ?thesis by (simp add: hit strip_ws_lf_other)
      next
        case False
        have nd: "\<not> is_hws d" using Cons by (metis hd_dropWhile list.sel(1) list.distinct(1))
        define ws where "ws = takeWhile is_hws cs"
        have cs: "c # cs = (c # ws) @ d # ds"
          using Cons by (simp add: ws_def) (metis takeWhile_dropWhile_id)
        have allw: "\<forall>x\<in>set (c # ws). is_hws x"
          using hws by (auto simp: ws_def dest: set_takeWhileD)
        have one: "strip_ws_lf (c # cs) = (c # ws) @ d # strip_ws_lf ds"
          unfolding cs using allw nd False by (rule strip_ws_lf_run)
        have ih: "strip_ws_lf (strip_ws_lf cs) = strip_ws_lf cs"
          using 2(3) [OF hws Cons False] .
        have two: "strip_ws_lf cs = ws @ d # strip_ws_lf ds"
        proof -
          have "cs = ws @ d # ds" using cs by simp
          moreover have "\<forall>x\<in>set ws. is_hws x" using allw by simp
          ultimately show ?thesis using strip_ws_lf_run [of ws d ds] nd False by simp
        qed
        have three: "strip_ws_lf (ws @ d # strip_ws_lf ds) = ws @ d # strip_ws_lf ds"
          using ih two by simp
        have "strip_ws_lf ((c # ws) @ d # strip_ws_lf ds)
              = (c # ws) @ d # strip_ws_lf (strip_ws_lf ds)"
          using allw nd False by (rule strip_ws_lf_run)
        moreover have "strip_ws_lf (ws @ d # strip_ws_lf ds) = ws @ d # strip_ws_lf (strip_ws_lf ds)"
          using allw nd False strip_ws_lf_run [of ws d "strip_ws_lf ds"] by simp
        ultimately show ?thesis using one three by simp
      qed
    qed
  qed
qed

lemma set_strip_ws_lf: "set (strip_ws_lf xs) \<subseteq> set xs"
proof (induction xs rule: strip_ws_lf.induct)
  case 1 show ?case by simp
next
  case (2 c cs)
  show ?case
  proof (cases "is_hws c")
    case False with 2 show ?thesis by (auto simp: strip_ws_lf_other)
  next
    case hws: True
    show ?thesis
    proof (cases "dropWhile is_hws cs")
      case Nil with hws 2 show ?thesis
        by (auto simp: strip_ws_lf_end simp del: dropWhile_eq_Nil_conv)
    next
      case (Cons d ds)
      have sub: "set (d # ds) \<subseteq> set cs"
        using Cons by (metis set_dropWhileD subsetI)
      show ?thesis
      proof (cases "d = LF")
        case True
        have "set (strip_ws_lf ds) \<subseteq> set ds" using 2(2) [OF hws Cons True] .
        moreover have "strip_ws_lf (c # cs) = LF # strip_ws_lf ds"
          using hws Cons True by (simp add: strip_ws_lf_hit)
        ultimately show ?thesis using sub True by auto
      next
        case False
        have "set (strip_ws_lf cs) \<subseteq> set cs" using 2(3) [OF hws Cons False] .
        moreover have "strip_ws_lf (c # cs) = c # strip_ws_lf cs"
          using hws Cons False by (simp add: strip_ws_lf_miss)
        ultimately show ?thesis by auto
      qed
    qed
  qed
qed

lemma strip_cr_lf_to_crlf: "CR \<notin> set ys \<Longrightarrow> strip_cr (lf_to_crlf ys) = ys"
  by (induction ys) (auto simp: strip_cr_def lf_to_crlf_def CR_def LF_def)

lemma CR_notin_strip_cr: "CR \<notin> set (strip_cr t)"
  by (simp add: strip_cr_def)

text \<open>
  C4, as the code computes it: the input \<open>"a\r\nb \n c\r"\<close> is stored as
  \<open>"a\r\nb\r\n c"\<close>. The final carriage return is stripped like every other one and no
  line feed follows the \<open>c\<close>, so the stored text does not end with a line ending.
\<close>

theorem normalize_example:
  "normalize [CHR ''a'', CHR 0x0D, CHR 0x0A, CHR ''b'', CHR 0x20, CHR 0x0A, CHR 0x20, CHR ''c'', CHR 0x0D]
   = [CHR ''a'', CHR 0x0D, CHR 0x0A, CHR ''b'', CHR 0x0D, CHR 0x0A, CHR 0x20, CHR ''c'']"
  by (simp add: normalize_def lf_to_crlf_def strip_cr_def strip_ws_lf.simps(2)
        is_hws_def CR_def LF_def TAB_def SP_def)

text \<open>
  C4, as the claim states it, fails: the stored text is not \<open>"a\r\nb\r\n c\r\n"\<close>.
\<close>

theorem normalize_example_not_crlf_terminated:
  "normalize [CHR ''a'', CHR 0x0D, CHR 0x0A, CHR ''b'', CHR 0x20, CHR 0x0A, CHR 0x20, CHR ''c'', CHR 0x0D]
   \<noteq> [CHR ''a'', CHR 0x0D, CHR 0x0A, CHR ''b'', CHR 0x0D, CHR 0x0A, CHR 0x20, CHR ''c'', CHR 0x0D, CHR 0x0A]"
  by (simp add: normalize_def lf_to_crlf_def strip_cr_def strip_ws_lf.simps(2)
        is_hws_def CR_def LF_def TAB_def SP_def)

text \<open>
  C10: the normalisation of the constructor is idempotent: the text a message stores is a
  fixed point of the normalisation, so constructing a message from it stores the same text.
\<close>

theorem normalize_idempotent: "normalize (normalize t) = normalize t"
proof -
  have "CR \<notin> set (strip_ws_lf (strip_cr t))"
    using set_strip_ws_lf [of "strip_cr t"] CR_notin_strip_cr [of t] by blast
  then have "strip_cr (normalize t) = strip_ws_lf (strip_cr t)"
    by (simp add: normalize_def strip_cr_lf_to_crlf)
  then show ?thesis by (simp add: normalize_def strip_ws_lf_idem)
qed

section \<open>Properties of the radix-64 codec\<close>


subsection \<open>Bit-level facts\<close>

lemma and_3: "x AND (3::nat) = take_bit 2 x"
  by (simp add: take_bit_eq_mask mask_eq_exp_minus_1)
lemma and_15: "x AND (15::nat) = take_bit 4 x"
  by (simp add: take_bit_eq_mask mask_eq_exp_minus_1)
lemma and_63: "x AND (63::nat) = take_bit 6 x"
  by (simp add: take_bit_eq_mask mask_eq_exp_minus_1)
lemma and_255: "x AND (255::nat) = take_bit 8 x"
  by (simp add: take_bit_eq_mask mask_eq_exp_minus_1)
lemmas js_masks = and_3 and_15 and_63 and_255

lemma Suc_Suc_diff2: "2 \<le> n \<Longrightarrow> Suc (Suc (n - 2)) = n"
  by arith

lemma byte0: "(of_nat ((push_bit 2 (sx0 w) AND 255) OR (drop_bit 4 (sx1 w w1) AND 255)) :: 8 word) = w"
  unfolding sx0_def sx1_def
  by (rule bit_eqI) (auto simp: js_masks bit_simps Suc_Suc_diff2)

lemma byte1: "(of_nat ((push_bit 4 (sx1 w w1) AND 255) OR (drop_bit 2 (sx2 w1 w2) AND 255)) :: 8 word) = w1"
  unfolding sx1_def sx2_def
  by (rule bit_eqI) (auto simp: js_masks bit_simps)

lemma byte2: "(of_nat ((push_bit 6 (sx2 w1 w2) AND 255) OR (sx3 w2 AND 255)) :: 8 word) = w2"
  unfolding sx2_def sx3_def
  by (rule bit_eqI) (auto simp: js_masks bit_simps)

lemma sx0_lt: "sx0 w < 64"
  unfolding sx0_def and_63 by (rule order_less_le_trans [OF take_bit_nat_less_exp]) simp
lemma sx3_lt: "sx3 w < 64"
  unfolding sx3_def and_63 by (rule order_less_le_trans [OF take_bit_nat_less_exp]) simp
lemma sx1_lt: "sx1 w w1 < 64"
proof -
  have "sx1 w w1 = take_bit 6 (sx1 w w1)"
    unfolding sx1_def by (rule bit_eqI) (auto simp: js_masks bit_simps)
  also have "\<dots> < 2 ^ 6" by (rule take_bit_nat_less_exp)
  finally show ?thesis by simp
qed
lemma sx2_lt: "sx2 w w1 < 64"
proof -
  have "sx2 w w1 = take_bit 6 (sx2 w w1)"
    unfolding sx2_def by (rule bit_eqI) (auto simp: js_masks bit_simps)
  also have "\<dots> < 2 ^ 6" by (rule take_bit_nat_less_exp)
  finally show ?thesis by simp
qed

lemma length_b64s: "length b64s = 64" by (simp add: b64s_def)
lemma length_b64u: "length b64u = 64" by (simp add: b64u_def)
lemma distinct_b64s: "distinct b64s" by (simp add: b64s_def)
lemma distinct_b64u: "distinct b64u" by (simp add: b64u_def)

lemma indexOf_nth: "distinct xs \<Longrightarrow> i < length xs \<Longrightarrow> indexOf xs (xs ! i) = Some i"
proof (induction xs arbitrary: i)
  case Nil then show ?case by simp
next
  case (Cons x xs)
  show ?case
  proof (cases i)
    case 0 then show ?thesis by simp
  next
    case (Suc j)
    with Cons.prems have "xs ! j \<in> set xs" "x \<notin> set xs" by auto
    then have "x \<noteq> xs ! j" by auto
    with Suc Cons show ?thesis by simp
  qed
qed

lemma indexOf_None: "ch \<notin> set xs \<Longrightarrow> indexOf xs ch = None"
  by (induction xs) auto

lemma pad_notin_b64s: "CHR ''='' \<notin> set b64s" by (simp add: b64s_def)
lemma LF_notin_b64s: "LF \<notin> set b64s" by (simp add: b64s_def LF_def)
lemma pad_notin_b64u: "CHR ''='' \<notin> set b64u" by (simp add: b64u_def)
lemma LF_notin_b64u: "LF \<notin> set b64u" by (simp add: b64u_def LF_def)


lemma charAt_sx:
  assumes "length b64 = 64"
  shows "charAt b64 (sx0 c) = [b64 ! sx0 c]" "charAt b64 (sx1 c c1) = [b64 ! sx1 c c1]"
    "charAt b64 (sx2 c c1) = [b64 ! sx2 c c1]" "charAt b64 (sx3 c) = [b64 ! sx3 c]"
  using assms sx0_lt [of c] sx1_lt [of c c1] sx2_lt [of c c1] sx3_lt [of c]
  by (simp_all add: charAt_def)

lemma no_brk:
  "l mod 4 = 0 \<Longrightarrow> Suc l mod 60 \<noteq> 0"
  "l mod 4 = 1 \<Longrightarrow> Suc l mod 60 \<noteq> 0"
  "l mod 4 = 2 \<Longrightarrow> Suc l mod 60 \<noteq> 0"
  by presburger+

lemmas sx_raw_lt = sx0_lt [unfolded sx0_def] sx1_lt [unfolded sx1_def] sx2_lt [unfolded sx2_def]
  sx3_lt [unfolded sx3_def]

lemma s2r_step0:
  assumes "length b64 = 64" "l mod 4 = 0"
  shows "s2r_step b64 u (unat c0) (r, l, 0, a) = (r @ [b64 ! sx0 c0], Suc l, 1, sx1 c0 0)"
  using assms no_brk(1) [of l] sx_raw_lt(1) [of c0]
  by (simp add: sx0_def sx1_def charAt_def brk_def)

lemma s2r_step1:
  assumes "length b64 = 64" "l mod 4 = 1"
  shows "s2r_step b64 u (unat c1) (r, l, 1, sx1 c0 0) = (r @ [b64 ! sx1 c0 c1], Suc l, 2, sx2 c1 0)"
  using assms no_brk(2) [of l] sx_raw_lt(2) [of c0 c1]
  by (simp add: sx1_def sx2_def charAt_def brk_def)

lemma s2r_step2:
  assumes "length b64 = 64" "l mod 4 = 2"
  shows "s2r_step b64 u (unat c2) (r, l, 2, sx2 c1 0) =
    (r @ [b64 ! sx2 c1 c2, b64 ! sx3 c2] @ (if Suc (Suc l) mod 60 = 0 \<and> \<not> u then [LF] else []),
     Suc (Suc l), 0, sx2 c1 0)"
  using assms no_brk(3) [of l] sx_raw_lt(3) [of c1 c2] sx_raw_lt(4) [of c2]
  by (simp add: sx2_def sx3_def charAt_def brk_def)

lemma s2r_group:
  assumes "length b64 = 64" "l mod 4 = 0"
  shows "s2r_loop b64 u (c0 # c1 # c2 # t) (r, l, 0, a) =
    s2r_loop b64 u t
      (r @ [b64 ! sx0 c0, b64 ! sx1 c0 c1, b64 ! sx2 c1 c2, b64 ! sx3 c2]
         @ (if (l + 4) mod 60 = 0 \<and> \<not> u then [LF] else []), l + 4, 0, sx2 c1 0)"
proof -
  have l1: "Suc l mod 4 = 1" and l2: "Suc (Suc l) mod 4 = 2" using assms(2) by presburger+
  have l4: "Suc (Suc (Suc (Suc l))) = l + 4" by simp
  show ?thesis
    unfolding s2r_loop.simps s2r_step0 [OF assms] s2r_step1 [OF assms(1) l1]
      s2r_step2 [OF assms(1) l2] l4
    by simp
qed

lemma s2r_finish0: "s2r_finish b64 u (r, l, 0, a) = r"
  by simp

lemma s2r_finish1:
  assumes "length b64 = 64" "l mod 4 = 1"
  shows "s2r_finish b64 u (r, l, 1, sx1 c0 0) = r @ [b64 ! sx1 c0 0] @ (if u then [] else ''=='')"
proof -
  have "Suc l mod 60 \<noteq> 0" "Suc (Suc l) mod 60 \<noteq> 0" using assms(2) by presburger+
  then show ?thesis using assms(1) by (simp add: charAt_sx brk_def)
qed

lemma s2r_finish2:
  assumes "length b64 = 64" "l mod 4 = 2"
  shows "s2r_finish b64 u (r, l, 2, sx2 c1 0) = r @ [b64 ! sx2 c1 0] @ (if u then [] else ''='')"
proof -
  have "Suc l mod 60 \<noteq> 0" using assms(2) by presburger
  then show ?thesis using assms(1) by (simp add: charAt_sx brk_def)
qed

lemma s2r_layout_gen:
  "length b64 = 64 \<Longrightarrow> l mod 4 = 0 \<Longrightarrow>
   s2r_finish b64 u (s2r_loop b64 u t (r, l, 0, a)) = r @ layout b64 u l t"
proof (induction b64 u l t arbitrary: r a rule: layout.induct)
  case (1 b64 u l c0 c1 c2 t)
  have l4: "(l + 4) mod 4 = 0" using 1(3) by presburger
  show ?case
    unfolding s2r_group [OF 1(2) 1(3)] 1(1) [OF 1(2) l4] by simp
next
  case (2 b64 u l c0 c1)
  have l1: "Suc l mod 4 = 1" and l2: "Suc (Suc l) mod 4 = 2" using 2(2) by presburger+
  show ?case
    using s2r_step0 [OF 2, of u c0 r a] s2r_step1 [OF 2(1) l1, of u c1 "r @ [b64 ! sx0 c0]" c0]
      s2r_finish2 [OF 2(1) l2, of u "r @ [b64 ! sx0 c0, b64 ! sx1 c0 c1]" c1]
    by (simp del: s2r_step.simps s2r_finish.simps)
next
  case (3 b64 u l c0)
  have l1: "Suc l mod 4 = 1" using 3(2) by presburger
  show ?case
    using s2r_step0 [OF 3, of u c0 r a] s2r_finish1 [OF 3(1) l1, of u "r @ [b64 ! sx0 c0]" c0]
    by (simp del: s2r_step.simps s2r_finish.simps)
next
  case (4 b64 u l)
  then show ?case by simp
qed

lemma s2r_eq_layout: "s2r t u = layout (if u then b64u else b64s) u 0 t"
  using s2r_layout_gen [of "if u then b64u else b64s" 0 u t "[]" 0]
  by (simp add: s2r_def length_b64s length_b64u)


subsection \<open>The decoder on the encoder's output\<close>

lemma r2s_loop_append: "r2s_loop b64 (xs @ ys) st = r2s_loop b64 ys (r2s_loop b64 xs st)"
  by (induction xs arbitrary: st) simp_all

lemma r2s_step_out: "ch \<notin> set b64 \<Longrightarrow> r2s_step b64 ch st = st"
  by (cases st) (simp add: indexOf_None)

lemma and_7: "x AND (7::nat) = x mod 8"
proof -
  have "x AND (7::nat) = take_bit 3 x"
    by (simp add: take_bit_eq_mask mask_eq_exp_minus_1)
  then show ?thesis by (simp add: take_bit_eq_mod)
qed

lemma r2s_step_in:
  assumes "distinct b64" "i < length b64"
  shows "r2s_step b64 (b64 ! i) (r, 0, a) = (r, 2, push_bit 2 i AND 255)"
    and "r2s_step b64 (b64 ! i) (r, 2, a) = (r @ [a OR (drop_bit 4 i AND 255)], 4, push_bit 4 i AND 255)"
    and "r2s_step b64 (b64 ! i) (r, 4, a) = (r @ [a OR (drop_bit 2 i AND 255)], 6, push_bit 6 i AND 255)"
    and "r2s_step b64 (b64 ! i) (r, 6, a) = (r @ [a OR (i AND 255)], 0, i AND 255)"
  using assms by (simp_all add: indexOf_nth and_7 Let_def push_bit_eq_mult drop_bit_eq_div)

lemma r2s_group:
  assumes "distinct b64" "length b64 = 64"
  shows "r2s_loop b64 [b64 ! sx0 c0, b64 ! sx1 c0 c1, b64 ! sx2 c1 c2, b64 ! sx3 c2] (r, 0, a) =
    (r @ [(push_bit 2 (sx0 c0) AND 255) OR (drop_bit 4 (sx1 c0 c1) AND 255)]
       @ [(push_bit 4 (sx1 c0 c1) AND 255) OR (drop_bit 2 (sx2 c1 c2) AND 255)]
       @ [(push_bit 6 (sx2 c1 c2) AND 255) OR (sx3 c2 AND 255)], 0, sx3 c2 AND 255)"
proof -
  have i: "sx0 c0 < length b64" "sx1 c0 c1 < length b64" "sx2 c1 c2 < length b64" "sx3 c2 < length b64"
    using assms(2) sx0_lt [of c0] sx1_lt [of c0 c1] sx2_lt [of c1 c2] sx3_lt [of c2] by simp_all
  show ?thesis
    unfolding r2s_loop.simps r2s_step_in(1) [OF assms(1) i(1)] r2s_step_in(2) [OF assms(1) i(2)]
      r2s_step_in(3) [OF assms(1) i(3)] r2s_step_in(4) [OF assms(1) i(4)] append_assoc ..
qed

lemma r2s_pair:
  assumes "distinct b64" "length b64 = 64"
  shows "r2s_loop b64 [b64 ! sx0 c0, b64 ! sx1 c0 c1] (r, 0, a) =
    (r @ [(push_bit 2 (sx0 c0) AND 255) OR (drop_bit 4 (sx1 c0 c1) AND 255)],
     4, push_bit 4 (sx1 c0 c1) AND 255)"
proof -
  have i: "sx0 c0 < length b64" "sx1 c0 c1 < length b64"
    using assms(2) sx0_lt [of c0] sx1_lt [of c0 c1] by simp_all
  show ?thesis
    unfolding r2s_loop.simps r2s_step_in(1) [OF assms(1) i(1)] r2s_step_in(2) [OF assms(1) i(2)] ..
qed

lemma r2s_triple:
  assumes "distinct b64" "length b64 = 64"
  shows "r2s_loop b64 [b64 ! sx0 c0, b64 ! sx1 c0 c1, b64 ! sx2 c1 c2] (r, 0, a) =
    (r @ [(push_bit 2 (sx0 c0) AND 255) OR (drop_bit 4 (sx1 c0 c1) AND 255)]
       @ [(push_bit 4 (sx1 c0 c1) AND 255) OR (drop_bit 2 (sx2 c1 c2) AND 255)],
     6, push_bit 6 (sx2 c1 c2) AND 255)"
proof -
  have i: "sx0 c0 < length b64" "sx1 c0 c1 < length b64" "sx2 c1 c2 < length b64"
    using assms(2) sx0_lt [of c0] sx1_lt [of c0 c1] sx2_lt [of c1 c2] by simp_all
  show ?thesis
    unfolding r2s_loop.simps r2s_step_in(1) [OF assms(1) i(1)] r2s_step_in(2) [OF assms(1) i(2)]
      r2s_step_in(3) [OF assms(1) i(3)] append_assoc ..
qed

lemma r2s_skip: "set xs \<inter> set b64 = {} \<Longrightarrow> r2s_loop b64 xs st = st"
  by (induction xs arbitrary: st) (simp_all add: r2s_step_out)

lemma r2s_layout:
  "distinct b64 \<Longrightarrow> length b64 = 64 \<Longrightarrow> CHR ''='' \<notin> set b64 \<Longrightarrow> LF \<notin> set b64 \<Longrightarrow>
   map of_nat (fst (r2s_loop b64 (layout b64 u l t) (r, 0, a))) = map of_nat r @ (t :: 8 word list)"
proof (induction b64 u l t arbitrary: r a rule: layout.induct)
  case (1 b64 u l c0 c1 c2 t)
  have skip: "r2s_loop b64 (if (l + 4) mod 60 = 0 \<and> \<not> u then [LF] else []) st = st" for st
    using 1(5) by (simp add: r2s_step_out)
  show ?case
    unfolding layout.simps r2s_loop_append r2s_group [OF 1(2,3)] skip
      1(1) [OF 1(2,3,4,5)]
    by (simp only: map_append list.map byte0 byte1 byte2 append_assoc append.simps)
next
  case (2 b64 u l c0 c1)
  have skip: "r2s_loop b64 (if u then [] else ''='') st = st" for st
    using 2(3) by (simp add: r2s_step_out)
  show ?case
    unfolding layout.simps r2s_loop_append r2s_triple [OF 2(1,2)] skip
    by (simp only: map_append list.map byte0 byte1 append_assoc append.simps fst_conv)
next
  case (3 b64 u l c0)
  have skip: "r2s_loop b64 (if u then [] else ''=='') st = st" for st
    using 3(3) by (simp add: r2s_step_out)
  show ?case
    unfolding layout.simps r2s_loop_append r2s_pair [OF 3(1,2)] skip
    by (simp only: map_append list.map byte0 append_assoc append.simps fst_conv)
next
  case (4 b64 u l)
  show ?case by simp
qed

text \<open>
  C5: for every byte sequence \<open>b\<close> and either alphabet, decoding the radix-64 encoding of
  \<open>b\<close> with the same flag returns \<open>b\<close>.
\<close>

theorem radix64_roundtrip: "r2s (s2r b u) u = b"
proof (cases u)
  case True
  then show ?thesis
    using r2s_layout [OF distinct_b64u length_b64u pad_notin_b64u LF_notin_b64u, of True 0 b "[]" 0]
    by (simp add: r2s_def s2r_eq_layout)
next
  case False
  then show ?thesis
    using r2s_layout [OF distinct_b64s length_b64s pad_notin_b64s LF_notin_b64s, of False 0 b "[]" 0]
    by (simp add: r2s_def s2r_eq_layout)
qed




subsection \<open>Line breaks and padding\<close>

lemma wrap_group:
  assumes "l mod 4 = 0"
  shows "wrap l (x0 # x1 # x2 # x3 # xs) =
    [x0, x1, x2, x3] @ (if (l + 4) mod 60 = 0 then [LF] else []) @ wrap (l + 4) xs"
proof -
  have nb: "Suc l mod 60 \<noteq> 0" "Suc (Suc l) mod 60 \<noteq> 0" "Suc (Suc (Suc l)) mod 60 \<noteq> 0"
    using assms by presburger+
  have l4: "l + 4 = Suc (Suc (Suc (Suc l)))" by simp
  show ?thesis unfolding l4 using nb by simp
qed

lemma whole_groups_step:
  "length (c0 # c1 # c2 # t) - length (c0 # c1 # c2 # t) mod 3 =
   Suc (Suc (Suc (length t - length t mod 3)))"
proof -
  have "length t mod 3 \<le> length t" by simp
  moreover have "length (c0 # c1 # c2 # t) mod 3 = length t mod 3" by simp
  ultimately show ?thesis by simp
qed

lemma layout_standard:
  "l mod 4 = 0 \<Longrightarrow>
   layout b64 False l t =
     wrap l (enc b64 (take (length t - length t mod 3) t))
     @ final_group b64 (drop (length t - length t mod 3) t)"
proof (induction b64 "False" l t rule: layout.induct)
  case (1 b64 l c0 c1 c2 t)
  have l4: "(l + 4) mod 4 = 0" using 1(2) by presburger
  show ?case
    unfolding whole_groups_step
    by (simp add: wrap_group [OF 1(2)] 1(1) [OF l4] del: wrap.simps)
next
  case (2 b64 l c0 c1)
  show ?case by simp
next
  case (3 b64 l c0)
  show ?case by simp
next
  case (4 b64 l)
  show ?case by simp
qed

lemma layout_urlsafe: "layout b64 True l t = enc b64 t"
  by (induction b64 "True" l t rule: layout.induct) simp_all

lemma set_enc: "length b64 = 64 \<Longrightarrow> set (enc b64 t) \<subseteq> set b64"
proof (induction b64 t rule: enc.induct)
  case (1 b64 c0 c1 c2 t)
  then show ?case
    using sx0_lt [of c0] sx1_lt [of c0 c1] sx2_lt [of c1 c2] sx3_lt [of c2] by simp
next
  case (2 b64 c0 c1)
  then show ?case using sx0_lt [of c0] sx1_lt [of c0 c1] sx2_lt [of c1 0] by simp
next
  case (3 b64 c0)
  then show ?case using sx0_lt [of c0] sx1_lt [of c0 0] by simp
next
  case (4 b64)
  show ?case by simp
qed

text \<open>
  C6, as the code lays its output out: the standard variant breaks the line after every 60
  characters of the complete 3-byte groups, then appends the last group, padded with one
  \<open>=\<close> when two bytes remain and with two when one remains, and emits nothing after the
  padding; the URL-safe variant emits the characters alone, with no line break and no
  padding.
\<close>

theorem s2r_line_breaks_and_padding:
  "s2r t False =
     wrap 0 (enc b64s (take (length t - length t mod 3) t))
     @ final_group b64s (drop (length t - length t mod 3) t)
   \<and> s2r t True = enc b64u t
   \<and> LF \<notin> set (s2r t True) \<and> CHR ''='' \<notin> set (s2r t True)"
proof -
  have a: "s2r t False =
     wrap 0 (enc b64s (take (length t - length t mod 3) t))
     @ final_group b64s (drop (length t - length t mod 3) t)"
    by (simp add: s2r_eq_layout layout_standard)
  have b: "s2r t True = enc b64u t"
    by (simp add: s2r_eq_layout layout_urlsafe)
  have "set (s2r t True) \<subseteq> set b64u"
    unfolding b using length_b64u by (rule set_enc)
  then have "LF \<notin> set (s2r t True)" "CHR ''='' \<notin> set (s2r t True)"
    using LF_notin_b64u pad_notin_b64u by blast+
  with a b show ?thesis by simp
qed

lemma wrap_Nil_iff: "wrap l xs = [] \<longleftrightarrow> xs = []"
  by (cases xs) simp_all

lemma last_wrap: "xs \<noteq> [] \<Longrightarrow> (l + length xs) mod 60 = 0 \<Longrightarrow> last (wrap l xs) = LF"
proof (induction xs arbitrary: l)
  case Nil then show ?case by simp
next
  case (Cons x xs)
  show ?case
  proof (cases "xs = []")
    case True
    with Cons.prems show ?thesis by simp
  next
    case False
    then have "last (wrap (Suc l) xs) = LF" using Cons.IH [of "Suc l"] Cons.prems(2) by simp
    with False show ?thesis by (simp add: wrap_Nil_iff)
  qed
qed

lemma length_enc: "length (enc b64 t) = (4 * length t + 2) div 3"
  by (induction b64 t rule: enc.induct) simp_all


text \<open>
  C6, as the claim states it, fails: 44 bytes are encoded in 60 characters, the last of them
  a padding character, and no line break follows the 60th character.
\<close>

theorem s2r_no_break_after_padding:
  "s2r (replicate 44 0) False \<noteq> wrap 0 (enc b64s (replicate 44 0) @ pad (replicate 44 0))"
proof -
  have d: "drop (length (replicate 44 (0 :: 8 word)) - length (replicate 44 (0 :: 8 word)) mod 3)
             (replicate 44 (0 :: 8 word)) = [0, 0]"
    by (simp add: numeral_2_eq_2)
  have "s2r (replicate 44 0) False =
      wrap 0 (enc b64s (take (length (replicate 44 (0 :: 8 word))
                 - length (replicate 44 (0 :: 8 word)) mod 3) (replicate 44 0)))
      @ final_group b64s [0, 0]"
    unfolding s2r_eq_layout d [symmetric] by (simp only: layout_standard if_False mod_0)
  then have "last (s2r (replicate 44 0) False) = CHR ''=''"
    by (simp only: final_group.simps last_append last.simps append.simps list.distinct if_False if_True simp_thms)
  moreover have "last (wrap 0 (enc b64s (replicate 44 0) @ pad (replicate 44 0))) = LF"
    by (rule last_wrap) (simp_all add: length_enc pad_def)
  moreover have "LF \<noteq> CHR ''=''" by (simp add: LF_def)
  ultimately show ?thesis by metis
qed


section \<open>Properties of the cleartext protocol\<close>

lemma checkHashAlgos_iff:
  "checkHashAlgos E ps algos \<longleftrightarrow>
   (\<forall>p\<in>set ps. tag p = packet_signature E \<longrightarrow> hashAlgorithm p \<in> set algos)"
  by (induction ps) (auto simp: list_ex_iff)

text \<open>
  What an accepted header list guarantees: every signature packet uses a declared
  algorithm, and MD5 when nothing is declared.
\<close>

lemma verifyHeaders_Inr:
  assumes "verifyHeaders E hs ps = Inr u"
  shows "\<exists>algos. collect_headers E hs [] = Inr algos
     \<and> (\<forall>p\<in>set ps. tag p = packet_signature E \<longrightarrow> hashAlgorithm p \<in> set algos)
     \<and> (algos = [] \<longrightarrow> (\<forall>p\<in>set ps. tag p = packet_signature E \<longrightarrow> hashAlgorithm p = hash_md5 E))"
  using assms
  by (auto simp: verifyHeaders_def checkHashAlgos_iff split: sum.splits if_splits)

text \<open>
  With no header, a message whose only signature uses MD5 is refused all the same: the
  second test then compares the signature with the empty list of declared algorithms.
\<close>

lemma verifyHeaders_no_header_md5:
  "verifyHeaders openpgp_enums [] [sig_packet 1 ''k''] = Inl HashAlgorithmMismatch"
  by (simp add: verifyHeaders_def openpgp_enums_def sig_packet_def)

text \<open>
  C3: a header line other than \<open>Hash\<close> should make the read fail. The code accepts the
  line \<open>Comment: Hash: SHA256\<close>: the unanchored pattern finds \<open>Hash: SHA256\<close> inside it,
  and the read returns the message.
\<close>

theorem readArmored_accepts_other_header:
  "readArmored openpgp_enums
     (\<lambda>t. Inr \<lparr>atype = 2, headers = [''Comment: Hash: SHA256''], atext = ''hi'', adata = ()\<rparr>)
     (\<lambda>d. Inr [sig_packet 8 ''k''])
     ''armored''
   = Inr \<lparr>text = ''hi'', signature = \<lparr>packets = [sig_packet 8 ''k'']\<rparr>\<rparr>"
  by code_simp


text \<open>
  The block that \<open>armor\<close> builds: type "signed", a \<open>Hash\<close> header that is the upper-case
  name of the configured preferred hash algorithm, whatever the attached signature packets
  are, the stored text and the serialised signature packets.
\<close>

lemma armor_signed_block:
  assumes "hash_read E (prefer_hash_algorithm C) = Some name"
  shows "armor C E packetlist_write armor_encode this =
    Inr (armor_encode (armor_signed E)
          \<lparr>body_hash = toUpperCase name, body_text = text this,
           body_data = packetlist_write (packets (signature this))\<rparr>)"
  using assms by (simp add: armor_def)

lemma armor_signed_block_example:
  "armor sha256_config openpgp_enums (\<lambda>ps. ps) Pair
     \<lparr>text = ''hi'', signature = \<lparr>packets = [sig_packet 8 ''k'']\<rparr>\<rparr>
   = Inr (2, \<lparr>body_hash = ''SHA256'', body_text = ''hi'', body_data = [sig_packet 8 ''k'']\<rparr>)"
proof -
  have h: "hash_read openpgp_enums (prefer_hash_algorithm sha256_config) = Some ''sha256''"
    by (simp add: openpgp_enums_def openpgp_hash_def sha256_config_def)
  have u: "toUpperCase ''sha256'' = ''SHA256''" by code_simp
  show ?thesis
    using armor_signed_block [OF h, of "\<lambda>ps. ps" Pair
        "\<lparr>text = ''hi'', signature = \<lparr>packets = [sig_packet 8 ''k'']\<rparr>\<rparr>"]
    by (simp add: u openpgp_enums_def)
qed

text \<open>
  C7: the \<open>Hash\<close> header should name the hash algorithm of every attached signature. For
  a message that carries a SHA-1 signature, under a configuration that prefers SHA-256,
  the header that \<open>armor\<close> writes is \<open>SHA256\<close>: it does not name SHA-1, and
  \<open>verifyHeaders\<close> refuses this header for this signature when the block is read back.
\<close>

theorem armor_header_omits_signature_hash:
  "armor sha256_config openpgp_enums (\<lambda>ps. ps) Pair
     \<lparr>text = ''hi'', signature = \<lparr>packets = [sig_packet 2 ''k'']\<rparr>\<rparr>
   = Inr (2, \<lparr>body_hash = ''SHA256'', body_text = ''hi'', body_data = [sig_packet 2 ''k'']\<rparr>)
   \<and> \<not> header_names_hashes openpgp_enums ''SHA256'' [sig_packet 2 ''k'']
   \<and> verifyHeaders openpgp_enums [''Hash: SHA256''] [sig_packet 2 ''k'']
       = Inl HashAlgorithmMismatch"
  by code_simp

lemma all_settled_Inr:
  "all_settled f xs = Inr ys \<Longrightarrow>
   length ys = length xs \<and> (\<forall>i<length xs. f (xs ! i) = Inr (ys ! i))"
proof (induction xs arbitrary: ys)
  case Nil then show ?case by simp
next
  case (Cons x xs)
  then obtain y ys' where y: "f x = Inr y" and r: "all_settled f xs = Inr ys'" and ys: "ys = y # ys'"
    by (auto split: sum.splits)
  from Cons.IH [OF r] y ys show ?case by (auto simp: nth_Cons split: nat.splits)
qed

lemma all_settled_Inl:
  "all_settled f xs = Inl e \<Longrightarrow> \<exists>x\<in>set xs. f x = Inl e"
  by (induction xs) (auto split: sum.splits)

lemma find_keyPacket_none:
  "\<forall>key\<in>set keys. verifyPrimaryUser K key = Inr () \<Longrightarrow>
   \<forall>key\<in>set keys. getSigningKeyPacket K key (Some (issuerKeyId sg)) (Some (verify_expired_keys C)) = None \<Longrightarrow>
   find_keyPacket K C sg keys kp = Inr kp"
  by (induction keys) simp_all

lemma find_keyPacket_no_match:
  "\<forall>key\<in>set keys. getSigningKeyPacket K key (Some (issuerKeyId sg)) (Some (verify_expired_keys C)) = None \<Longrightarrow>
   find_keyPacket K C sg keys kp = Inr r \<Longrightarrow> r = kp"
  by (induction keys) (auto split: sum.splits)

lemma verify_signature_Inr:
  assumes "verify_signature K C lit keys sg = Inr v"
  shows "keyid v = issuerKeyId sg \<and> vsignature v = \<lparr>packets = [sg]\<rparr> \<and>
    ((\<forall>key\<in>set keys. getSigningKeyPacket K key (Some (issuerKeyId sg))
        (Some (verify_expired_keys C)) = None) \<longrightarrow> valid v = None)"
  using assms find_keyPacket_no_match [of keys K sg C None]
  by (auto simp: verify_signature_def split: sum.splits option.splits)

lemma verify_signature_unknown:
  assumes "\<forall>key\<in>set keys. verifyPrimaryUser K key = Inr ()"
    and "\<forall>key\<in>set keys. getSigningKeyPacket K key (Some (issuerKeyId p))
              (Some (verify_expired_keys C)) = None"
  shows "verify_signature K C lit keys p =
         Inr \<lparr>keyid = issuerKeyId p, valid = None, vsignature = \<lparr>packets = [p]\<rparr>\<rparr>"
  using find_keyPacket_none [OF assms, of None] by (simp add: verify_signature_def)

lemma all_settled_total:
  "\<forall>x\<in>set xs. \<exists>y. f x = Inr y \<Longrightarrow> \<exists>ys. all_settled f xs = Inr ys"
proof (induction xs)
  case Nil show ?case by simp
next
  case (Cons x xs)
  then obtain y ys where "f x = Inr y" "all_settled f xs = Inr ys" by auto
  then show ?case by simp
qed

text \<open>
  C8: the list that \<open>verifyDetached\<close> returns has one entry for each signature, in the order
  of the signatures, each with the issuer key id and the signature it is about; the entry
  of a signature whose issuer no supplied key matches has the validity \<open>null\<close> (\<open>None\<close>),
  neither \<open>true\<close> nor \<open>false\<close>. Such a signature never makes the call fail: when the
  primary-user check of every key returns, and every signature either has no matching key
  or is verified without an exception, the call returns a list.
\<close>

theorem verifyDetached_unknown_key:
  "(verifyDetached K C this sg keys = Inr rs \<longrightarrow>
      length rs = length (packets sg) \<and>
      (\<forall>i<length (packets sg).
         keyid (rs ! i) = issuerKeyId (packets sg ! i) \<and>
         vsignature (rs ! i) = \<lparr>packets = [packets sg ! i]\<rparr> \<and>
         ((\<forall>key\<in>set keys. getSigningKeyPacket K key (Some (issuerKeyId (packets sg ! i)))
              (Some (verify_expired_keys C)) = None) \<longrightarrow> valid (rs ! i) = None)))
   \<and> ((\<forall>key\<in>set keys. verifyPrimaryUser K key = Inr ()) \<and>
       (\<forall>q\<in>set (packets sg).
          (\<forall>key\<in>set keys. getSigningKeyPacket K key (Some (issuerKeyId q))
              (Some (verify_expired_keys C)) = None)
          \<or> (\<exists>v. verify_signature K C (text this) keys q = Inr v)) \<longrightarrow>
       (\<exists>vs. verifyDetached K C this sg keys = Inr vs))"
proof (intro conjI impI)
  assume ok: "verifyDetached K C this sg keys = Inr rs"
  from all_settled_Inr [OF ok [unfolded verifyDetached_def]]
  show "length rs = length (packets sg)" by simp
  show "\<forall>i<length (packets sg).
         keyid (rs ! i) = issuerKeyId (packets sg ! i) \<and>
         vsignature (rs ! i) = \<lparr>packets = [packets sg ! i]\<rparr> \<and>
         ((\<forall>key\<in>set keys. getSigningKeyPacket K key (Some (issuerKeyId (packets sg ! i)))
              (Some (verify_expired_keys C)) = None) \<longrightarrow> valid (rs ! i) = None)"
  proof (intro allI impI)
    fix i assume "i < length (packets sg)"
    with all_settled_Inr [OF ok [unfolded verifyDetached_def]]
    have "verify_signature K C (text this) keys (packets sg ! i) = Inr (rs ! i)" by simp
    from verify_signature_Inr [OF this]
    show "keyid (rs ! i) = issuerKeyId (packets sg ! i) \<and>
         vsignature (rs ! i) = \<lparr>packets = [packets sg ! i]\<rparr> \<and>
         ((\<forall>key\<in>set keys. getSigningKeyPacket K key (Some (issuerKeyId (packets sg ! i)))
              (Some (verify_expired_keys C)) = None) \<longrightarrow> valid (rs ! i) = None)" .
  qed
next
  assume h: "(\<forall>key\<in>set keys. verifyPrimaryUser K key = Inr ()) \<and>
       (\<forall>q\<in>set (packets sg).
          (\<forall>key\<in>set keys. getSigningKeyPacket K key (Some (issuerKeyId q))
              (Some (verify_expired_keys C)) = None)
          \<or> (\<exists>v. verify_signature K C (text this) keys q = Inr v))"
  have "\<forall>q\<in>set (packets sg). \<exists>v. verify_signature K C (text this) keys q = Inr v"
  proof
    fix q assume "q \<in> set (packets sg)"
    with h consider
      "\<forall>key\<in>set keys. getSigningKeyPacket K key (Some (issuerKeyId q))
              (Some (verify_expired_keys C)) = None"
      | "\<exists>v. verify_signature K C (text this) keys q = Inr v" by blast
    then show "\<exists>v. verify_signature K C (text this) keys q = Inr v"
    proof cases
      case 1
      with h show ?thesis using verify_signature_unknown [of keys K q C "text this"] by blast
    next
      case 2 then show ?thesis .
    qed
  qed
  then show "\<exists>vs. verifyDetached K C this sg keys = Inr vs"
    unfolding verifyDetached_def by (rule all_settled_total)
qed

theorem verifyDetached_unknown_key_witness:
  "verifyDetached named_keys sha256_config \<lparr>text = ''hi'', signature = two_signatures\<rparr>
       two_signatures [''s1'']
     = Inr [\<lparr>keyid = ''s1'', valid = Some False, vsignature = \<lparr>packets = [sig_packet 8 ''s1'']\<rparr>\<rparr>,
            \<lparr>keyid = ''zz'', valid = None, vsignature = \<lparr>packets = [sig_packet 8 ''zz'']\<rparr>\<rparr>]
   \<and> getSigningKeyPacket named_keys ''s1'' (Some ''zz'')
          (Some (verify_expired_keys sha256_config)) = None
   \<and> verifyPrimaryUser named_keys ''s1'' = Inr ()
   \<and> valid ([\<lparr>keyid = ''s1'', valid = Some False,
                 vsignature = \<lparr>packets = [sig_packet 8 ''s1'']\<rparr>\<rparr>,
               \<lparr>keyid = ''zz'', valid = None,
                 vsignature = \<lparr>packets = [sig_packet 8 ''zz'']\<rparr>\<rparr>] ! 1) = None"
proof -
  have r: "verifyDetached named_keys sha256_config \<lparr>text = ''hi'', signature = two_signatures\<rparr>
       two_signatures [''s1'']
     = Inr [\<lparr>keyid = ''s1'', valid = Some False, vsignature = \<lparr>packets = [sig_packet 8 ''s1'']\<rparr>\<rparr>,
            \<lparr>keyid = ''zz'', valid = None, vsignature = \<lparr>packets = [sig_packet 8 ''zz'']\<rparr>\<rparr>]"
    by (simp add: verifyDetached_def verify_signature_def named_keys_def sha256_config_def
        two_signatures_def sig_packet_def)
  have g: "\<forall>key\<in>set [''s1'']. getSigningKeyPacket named_keys key
          (Some (issuerKeyId (packets two_signatures ! 1)))
          (Some (verify_expired_keys sha256_config)) = None"
    by (simp add: named_keys_def two_signatures_def sig_packet_def)
  have l: "(1::nat) < length (packets two_signatures)"
    by (simp add: two_signatures_def)
  have "valid ([\<lparr>keyid = ''s1'', valid = Some False,
                 vsignature = \<lparr>packets = [sig_packet 8 ''s1'']\<rparr>\<rparr>,
               \<lparr>keyid = ''zz'', valid = None,
                 vsignature = \<lparr>packets = [sig_packet 8 ''zz'']\<rparr>\<rparr>] ! 1) = None"
    using verifyDetached_unknown_key [of named_keys sha256_config
      "\<lparr>text = ''hi'', signature = two_signatures\<rparr>" two_signatures "[''s1'']"
      "[\<lparr>keyid = ''s1'', valid = Some False, vsignature = \<lparr>packets = [sig_packet 8 ''s1'']\<rparr>\<rparr>,
        \<lparr>keyid = ''zz'', valid = None, vsignature = \<lparr>packets = [sig_packet 8 ''zz'']\<rparr>\<rparr>]"]
      r g l by blast
  moreover have "getSigningKeyPacket named_keys ''s1'' (Some ''zz'')
          (Some (verify_expired_keys sha256_config)) = None"
    by (simp add: named_keys_def)
  moreover have "verifyPrimaryUser named_keys ''s1'' = Inr ()"
    by (simp add: named_keys_def)
  ultimately show ?thesis using r by blast
qed

text \<open>
  The detached signature that \<open>signDetached\<close> returns holds one packet for each private
  key, in the order of the keys.
\<close>

lemma signDetached_Inr:
  assumes "signDetached K C E m keys = Inr sg"
  shows "length (packets sg) = length keys \<and>
    (\<forall>i<length keys. sign_with_key K C E (text m) (keys ! i) = Inr (packets sg ! i))"
  using assms all_settled_Inr [of "sign_with_key K C E (text m)" keys "packets sg"]
  by (auto simp: signDetached_def split: sum.splits)

end
